theory Spec2Isabelle
  imports Main
begin

section \<open>Board constants of game.js\<close>

text \<open>
  The rules engine of the Ludo game in \<^verbatim>\<open>src/game.js\<close>. Positions and dice values are
  JavaScript numbers that only ever hold integers, modelled as \<^typ>\<open>int\<close>:
  \<^verbatim>\<open>-1\<close> is the base, \<^verbatim>\<open>0..51\<close> the shared track, \<^verbatim>\<open>100 + j\<close> the home column.
\<close>

datatype color = Red | Blue | Green | Yellow

definition PLAYER_COLORS :: "color list" where
  "PLAYER_COLORS = [Red, Blue, Green, Yellow]"

definition TOKEN_COUNT :: nat where
  "TOKEN_COUNT = 4"

fun START_INDICES :: "color \<Rightarrow> int" where
  "START_INDICES Red = 0"
| "START_INDICES Blue = 13"
| "START_INDICES Green = 26"
| "START_INDICES Yellow = 39"

fun HOME_ENTRY_INDICES :: "color \<Rightarrow> int" where
  "HOME_ENTRY_INDICES Red = 50"
| "HOME_ENTRY_INDICES Blue = 11"
| "HOME_ENTRY_INDICES Green = 24"
| "HOME_ENTRY_INDICES Yellow = 37"

definition SAFE_SPOTS :: "int list" where
  "SAFE_SPOTS = [0, 8, 13, 21, 26, 34, 39, 47]"

text \<open>
  JavaScript's \<^verbatim>\<open>%\<close> on integers with a positive divisor: the result takes the sign of
  the dividend (\<^verbatim>\<open>-1 % 52\<close> is \<^verbatim>\<open>-1\<close>).
\<close>

definition jsRem :: "int \<Rightarrow> int \<Rightarrow> int" where
  "jsRem a b = (if 0 \<le> a then a mod b else - ((- a) mod b))"

section \<open>Game state\<close>

text \<open>
  \<^verbatim>\<open>gameState\<close>, passed explicitly. \<^verbatim>\<open>tokens[color][i].pos\<close> is \<open>tokens s color ! i\<close>.
  The fields \<^verbatim>\<open>selectedToken\<close> and \<^verbatim>\<open>moveAnimationQueue\<close> are never read by the
  source and are left out; \<^verbatim>\<open>players\<close> is the constant \<open>PLAYER_COLORS\<close>. The one piece of
  DOM state the rules depend on, the \<^verbatim>\<open>disabled\<close> flag of the button \<^verbatim>\<open>roll-dice-btn\<close>,
  is the field \<open>rollBtnDisabled\<close>.
\<close>

record game_state =
  currentPlayerIndex :: nat
  diceRoll :: "int option"
  rollCount :: nat
  tokens :: "color \<Rightarrow> int list"
  isRolling :: bool
  winner :: "color option"
  rollBtnDisabled :: bool

datatype error =
    NoSixFromBase  \<comment> \<open>"Cannot move token out of base without a 6"\<close>
  | StartOccupied  \<comment> \<open>"Start square occupied by own token"\<close>
  | TypeError      \<comment> \<open>property read on \<^verbatim>\<open>undefined\<close>\<close>

text \<open>
  What a call leaves behind: \<open>Inr s'\<close> when it returns with the state \<open>s'\<close>, and
  \<open>Inl (e, s')\<close> when it throws \<open>e\<close>, with \<open>s'\<close> the state at the throw, which holds
  every assignment made before it.
\<close>

type_synonym outcome = "(error \<times> game_state) + game_state"

text \<open>The state after \<^verbatim>\<open>initTokens()\<close>: every token at \<^verbatim>\<open>-1\<close>.\<close>

definition initTokens :: "color \<Rightarrow> int list" where
  "initTokens = (\<lambda>color. replicate TOKEN_COUNT (- 1))"

definition initialState :: game_state where
  "initialState =
     \<lparr> currentPlayerIndex = 0, diceRoll = None, rollCount = 0, tokens = initTokens,
       isRolling = False, winner = None, rollBtnDisabled = False \<rparr>"

text \<open>
  \<^verbatim>\<open>initTokens\<close> gives every colour exactly \<open>TOKEN_COUNT\<close> tokens and no statement of
  the source changes the length of these arrays.
\<close>

definition wf_state :: "game_state \<Rightarrow> bool" where
  "wf_state s = list_all (\<lambda>c. length (tokens s c) = TOKEN_COUNT) PLAYER_COLORS"

text \<open>\<^verbatim>\<open>gameState.players[gameState.currentPlayerIndex]\<close>; \<open>None\<close> is \<^verbatim>\<open>undefined\<close>.\<close>

definition currentPlayer :: "game_state \<Rightarrow> color option" where
  "currentPlayer s =
     (if currentPlayerIndex s < length PLAYER_COLORS
      then Some (PLAYER_COLORS ! currentPlayerIndex s) else None)"

definition getNextPlayerIndex :: "game_state \<Rightarrow> nat" where
  "getNextPlayerIndex s = (currentPlayerIndex s + 1) mod length PLAYER_COLORS"

definition isSafeSpot :: "int \<Rightarrow> bool" where
  "isSafeSpot pos = (pos \<in> set SAFE_SPOTS)"

definition isHomePosition :: "int \<Rightarrow> bool" where
  "isHomePosition pos = (pos \<ge> 100)"

section \<open>Legality\<close>

definition isOccupiedByPlayer :: "game_state \<Rightarrow> color \<Rightarrow> int \<Rightarrow> bool" where
  "isOccupiedByPlayer s playerColor pos =
     list_ex (\<lambda>i. tokens s playerColor ! i = pos) [0..<TOKEN_COUNT]"

definition canMoveToken :: "game_state \<Rightarrow> color \<Rightarrow> int \<Rightarrow> int \<Rightarrow> bool" where
  "canMoveToken s playerColor pos dice =
     (if pos = - 1 then
        (dice = 6 \<and> \<not> isOccupiedByPlayer s playerColor (START_INDICES playerColor))
      else if 0 \<le> pos \<and> pos < 52 then
        (let startIndex = pos;
             homeEntryIndex = HOME_ENTRY_INDICES playerColor;
             distToHomeEntry = jsRem (homeEntryIndex - startIndex + 52) 52
         in if dice \<le> distToHomeEntry then
              (let nextPos = jsRem (startIndex + dice) 52
               in \<not> isOccupiedByPlayer s playerColor nextPos)
            else
              (let stepsIntoHome = dice - distToHomeEntry - 1
               in if stepsIntoHome \<ge> 6 then False
                  else (let homePos = 100 + stepsIntoHome
                        in \<not> isOccupiedByPlayer s playerColor homePos)))
      else if pos \<ge> 100 then
        (let homeIndex = pos - 100;
             targetHomeIndex = homeIndex + dice
         in if targetHomeIndex \<ge> 6 then False
            else (let homePos = 100 + targetHomeIndex
                  in \<not> isOccupiedByPlayer s playerColor homePos))
      else False)"

definition canAnyTokenMove :: "game_state \<Rightarrow> color \<Rightarrow> int \<Rightarrow> bool" where
  "canAnyTokenMove s playerColor diceValue =
     ((diceValue = 6 \<and>
       list_ex (\<lambda>i. tokens s playerColor ! i = - 1 \<and>
                    \<not> isOccupiedByPlayer s playerColor (START_INDICES playerColor))
               [0..<TOKEN_COUNT])
      \<or> list_ex (\<lambda>i. tokens s playerColor ! i \<noteq> - 1 \<and>
                      canMoveToken s playerColor (tokens s playerColor ! i) diceValue)
                 [0..<TOKEN_COUNT])"

section \<open>Capture\<close>

text \<open>The assignment \<^verbatim>\<open>gameState.tokens[color][i].pos = p\<close>.\<close>

definition setTokenPos :: "game_state \<Rightarrow> color \<Rightarrow> nat \<Rightarrow> int \<Rightarrow> game_state" where
  "setTokenPos s c i p = s\<lparr>tokens := (tokens s)(c := (tokens s c)[i := p])\<rparr>"

definition getTokensAtPosition :: "game_state \<Rightarrow> int \<Rightarrow> color \<Rightarrow> (color \<times> nat) list" where
  "getTokensAtPosition s pos exceptPlayer =
     concat (map (\<lambda>playerColor.
                    if playerColor = exceptPlayer then []
                    else map (\<lambda>i. (playerColor, i))
                           (filter (\<lambda>i. tokens s playerColor ! i = pos) [0..<TOKEN_COUNT]))
                 PLAYER_COLORS)"

fun sendToBase :: "game_state \<Rightarrow> (color \<times> nat) list \<Rightarrow> game_state" where
  "sendToBase s [] = s"
| "sendToBase s ((player, tokenIndex) # tks) =
     sendToBase (setTokenPos s player tokenIndex (- 1)) tks"

text \<open>
  The position argument is \<open>None\<close> for \<^verbatim>\<open>undefined\<close> (the last element of an empty
  path): \<^verbatim>\<open>isSafeSpot\<close> and \<^verbatim>\<open>isHomePosition\<close> are then false and no token's position
  is \<^verbatim>\<open>=== undefined\<close>, so nothing is sent back.
\<close>

fun killTokensAt :: "game_state \<Rightarrow> int option \<Rightarrow> color \<Rightarrow> game_state" where
  "killTokensAt s None exceptPlayer = s"
| "killTokensAt s (Some pos) exceptPlayer =
     (if isSafeSpot pos \<or> isHomePosition pos then s
      else sendToBase s (getTokensAtPosition s pos exceptPlayer))"

section \<open>Moving a token\<close>

text \<open>
  \<^verbatim>\<open>animateTokenMovement\<close> takes each step off the front of the array it is given
  (\<^verbatim>\<open>steps.shift()\<close>), writes it into the token's position one timer tick later, and runs
  its callback once the array is empty. The array is the caller's own: the result is the
  state together with that array as the callback finds it. While the animation runs
  \<^verbatim>\<open>isRolling\<close> is true, so \<^verbatim>\<open>onRollDice\<close> and \<^verbatim>\<open>onTokenClick\<close> return at once: the
  animation is modelled as running to its end.
\<close>

fun animateTokenMovement ::
  "game_state \<Rightarrow> color \<Rightarrow> nat \<Rightarrow> int list \<Rightarrow> game_state \<times> int list" where
  "animateTokenMovement s color tokenIndex [] = (s, [])"
| "animateTokenMovement s color tokenIndex (stepPos # steps) =
     animateTokenMovement (setTokenPos s color tokenIndex stepPos) color tokenIndex steps"

text \<open>\<^verbatim>\<open>path[path.length - 1]\<close>; \<open>None\<close> is \<^verbatim>\<open>undefined\<close>, the value on an empty array.\<close>

definition lastStep :: "int list \<Rightarrow> int option" where
  "lastStep path = (if path = [] then None else Some (last path))"

definition checkWin :: "game_state \<Rightarrow> color \<Rightarrow> game_state" where
  "checkWin s color =
     (if list_all (\<lambda>pos. pos = 105) (tokens s color)
      then s\<lparr>winner := Some color, rollBtnDisabled := True\<rparr>
      else s)"

definition finalizeMove :: "game_state \<Rightarrow> color \<Rightarrow> int \<Rightarrow> game_state" where
  "finalizeMove s color diceValue =
     (let s1 = (if diceValue = 6
                then s\<lparr>rollCount := 0, diceRoll := None, rollBtnDisabled := False\<rparr>
                else s\<lparr>currentPlayerIndex := getNextPlayerIndex s, diceRoll := None,
                       rollCount := 0, rollBtnDisabled := False\<rparr>);
          s2 = s1\<lparr>isRolling := False\<rparr>
      in checkWin s2 color)"

text \<open>The local \<^verbatim>\<open>path\<close> of \<^verbatim>\<open>moveToken\<close> as it is built, branch by branch.\<close>

definition movePath :: "color \<Rightarrow> int \<Rightarrow> int \<Rightarrow> int list" where
  "movePath color startPos diceValue =
     (if startPos = - 1 then [START_INDICES color]
      else if 0 \<le> startPos \<and> startPos < 52 then
        (let homeEntry = HOME_ENTRY_INDICES color;
             distToHomeEntry = jsRem (homeEntry - startPos + 52) 52
         in if diceValue \<le> distToHomeEntry then
              map (\<lambda>i. jsRem (startPos + i) 52) [1..diceValue]
            else
              (let stepsOnMain = distToHomeEntry;
                   stepsIntoHome = diceValue - stepsOnMain - 1
               in map (\<lambda>i. jsRem (startPos + i) 52) [1..stepsOnMain]
                  @ map (\<lambda>i. 100 + i) [0..stepsIntoHome]))
      else if startPos \<ge> 100 then
        (let homeIndex = startPos - 100
         in map (\<lambda>i. 100 + homeIndex + i) [1..diceValue])
      else [])"

text \<open>
  In the callbacks of \<^verbatim>\<open>moveToken\<close> the array \<^verbatim>\<open>path\<close> is the one the animation has
  taken the steps from, so \<^verbatim>\<open>killTokensAt\<close> receives the last element of what is left of
  it. Both errors are thrown before the first assignment.
\<close>

definition moveToken :: "game_state \<Rightarrow> color \<Rightarrow> nat \<Rightarrow> int \<Rightarrow> outcome" where
  "moveToken s color tokenIndex diceValue =
     (if tokenIndex \<ge> length (tokens s color) then Inl (TypeError, s)
      else
        (let startPos = tokens s color ! tokenIndex;
             path = movePath color startPos diceValue
         in if startPos = - 1 then
              (if diceValue \<noteq> 6 then Inl (NoSixFromBase, s)
               else if isOccupiedByPlayer s color (START_INDICES color)
               then Inl (StartOccupied, s)
               else
                 (let (s1, path') =
                        animateTokenMovement (s\<lparr>isRolling := True\<rparr>) color tokenIndex path;
                      s2 = killTokensAt s1 (lastStep path') color
                  in Inr (finalizeMove s2 color diceValue)))
            else if 0 \<le> startPos \<and> startPos < 52 then
              (let distToHomeEntry = jsRem (HOME_ENTRY_INDICES color - startPos + 52) 52
               in if diceValue \<le> distToHomeEntry then
                    (let (s1, path') =
                           animateTokenMovement (s\<lparr>isRolling := True\<rparr>) color tokenIndex path;
                         s2 = killTokensAt s1 (lastStep path') color
                     in Inr (finalizeMove s2 color diceValue))
                  else
                    (let (s1, path') =
                           animateTokenMovement (s\<lparr>isRolling := True\<rparr>) color tokenIndex path
                     in Inr (finalizeMove s1 color diceValue)))
            else if startPos \<ge> 100 then
              (let (s1, path') =
                     animateTokenMovement (s\<lparr>isRolling := True\<rparr>) color tokenIndex path
               in Inr (finalizeMove s1 color diceValue))
            else Inr s))"

section \<open>Event handlers\<close>

text \<open>
  \<^verbatim>\<open>onRollDice\<close>, with the value of \<^verbatim>\<open>Math.floor(Math.random() * 6) + 1\<close> as a
  parameter. When no token can move, the pass is a timer that calls \<^verbatim>\<open>finalizeMove\<close>
  one second later, after the button has been disabled; until then the dice is pending
  and no token of the current player is movable, so both handlers return at once and the
  pass is modelled as running to its end.
\<close>

definition onRollDice :: "game_state \<Rightarrow> int \<Rightarrow> outcome" where
  "onRollDice s roll =
     (if isRolling s \<or> diceRoll s \<noteq> None then Inr s
      else
        (let s1 = s\<lparr>diceRoll := Some roll, rollCount := rollCount s + 1\<rparr>
         in case currentPlayer s1 of
              None \<Rightarrow> Inl (TypeError, s1)
            | Some color \<Rightarrow>
                if \<not> canAnyTokenMove s1 color roll
                then Inr (finalizeMove (s1\<lparr>rollBtnDisabled := True\<rparr>) color roll)
                else Inr (s1\<lparr>rollBtnDisabled := True\<rparr>)))"

text \<open>A click on the roll button: a disabled button delivers no click event.\<close>

definition rollBtnClick :: "game_state \<Rightarrow> int \<Rightarrow> outcome" where
  "rollBtnClick s roll = (if rollBtnDisabled s then Inr s else onRollDice s roll)"

definition onTokenClick :: "game_state \<Rightarrow> color \<Rightarrow> nat \<Rightarrow> outcome" where
  "onTokenClick s color index =
     (if currentPlayer s \<noteq> Some color then Inr s
      else case diceRoll s of
             None \<Rightarrow> Inr s
           | Some dice \<Rightarrow>
               if isRolling s then Inr s
               else if index \<ge> length (tokens s color) then Inl (TypeError, s)
               else if \<not> canMoveToken s color (tokens s color ! index) dice then Inr s
               else moveToken s color index dice)"

text \<open>
  A sequence of events, delivered one after the other; an error aborts the run. The rolls
  of a run are values \<^verbatim>\<open>Math.floor(Math.random() * 6) + 1\<close> can return.
\<close>

datatype event = RollClick int | TokenClick color nat

fun handleEvent :: "game_state \<Rightarrow> event \<Rightarrow> outcome" where
  "handleEvent s (RollClick roll) = rollBtnClick s roll"
| "handleEvent s (TokenClick color index) = onTokenClick s color index"

fun runEvents :: "game_state \<Rightarrow> event list \<Rightarrow> outcome" where
  "runEvents s [] = Inr s"
| "runEvents s (e # es) =
     (case handleEvent s e of Inl err \<Rightarrow> Inl err | Inr s' \<Rightarrow> runEvents s' es)"

text \<open>
  The states the handlers can produce from the initial one. The rolled value is what
  \<^verbatim>\<open>Math.floor(Math.random() * 6) + 1\<close> can return. Rolls are taken through
  \<^verbatim>\<open>onRollDice\<close> itself, which allows at least every roll a click on the button allows.
\<close>

definition dieValues :: "event list \<Rightarrow> bool" where
  "dieValues evs =
     list_all (\<lambda>e. case e of RollClick roll \<Rightarrow> 1 \<le> roll \<and> roll \<le> 6 | TokenClick c i \<Rightarrow> True) evs"

inductive reachable :: "game_state \<Rightarrow> bool" where
  init: "reachable initialState"
| roll: "reachable s \<Longrightarrow> 1 \<le> roll \<Longrightarrow> roll \<le> 6 \<Longrightarrow> onRollDice s roll = Inr s' \<Longrightarrow> reachable s'"
| click: "reachable s \<Longrightarrow> onTokenClick s color index = Inr s' \<Longrightarrow> reachable s'"

section \<open>Derived notions used in the statements\<close>

text \<open>
  Where the moved token stands once \<^verbatim>\<open>moveToken\<close> has run: the last step of the path,
  or the start position when the path is empty.
\<close>

definition landing :: "color \<Rightarrow> int \<Rightarrow> int \<Rightarrow> int" where
  "landing color startPos diceValue =
     (case lastStep (movePath color startPos diceValue) of None \<Rightarrow> startPos | Some p \<Rightarrow> p)"

text \<open>
  The start positions from which \<^verbatim>\<open>moveToken\<close> reaches \<^verbatim>\<open>finalizeMove\<close>.
\<close>

definition movable :: "game_state \<Rightarrow> color \<Rightarrow> int \<Rightarrow> int \<Rightarrow> bool" where
  "movable s c p d =
     (if p = - 1 then d = 6 \<and> \<not> isOccupiedByPlayer s c (START_INDICES c)
      else 0 \<le> p \<and> p < 52 \<or> p \<ge> 100)"

text \<open>
  Every token that stands in a home column has a home index of at most 5.
\<close>

definition homeLaneOK :: "game_state \<Rightarrow> bool" where
  "homeLaneOK s =
     list_all (\<lambda>c. list_all (\<lambda>pos. isHomePosition pos \<longrightarrow> pos - 100 \<le> 5) (tokens s c))
       PLAYER_COLORS"

text \<open>
  A state with a winner has no dice pending and the roll button disabled.
\<close>

definition winnerLocked :: "game_state \<Rightarrow> bool" where
  "winnerLocked s = (winner s \<noteq> None \<longrightarrow> diceRoll s = None \<and> rollBtnDisabled s)"

text \<open>
  Two tokens of one colour never share a square other than the base.
\<close>

definition ownDistinct :: "game_state \<Rightarrow> bool" where
  "ownDistinct s =
     list_all (\<lambda>c. list_all (\<lambda>j1. list_all (\<lambda>j2.
         j1 = j2 \<or> tokens s c ! j1 \<noteq> tokens s c ! j2 \<or> tokens s c ! j1 = - 1)
       [0..<TOKEN_COUNT]) [0..<TOKEN_COUNT]) PLAYER_COLORS"

section \<open>Concrete states\<close>

text \<open>
  Red's token 0 on square 2, a blue token on the non-safe square 5, a 3 rolled.
\<close>

definition captureState :: game_state where
  "captureState =
     \<lparr> currentPlayerIndex = 0, diceRoll = Some 3, rollCount = 1,
       tokens = initTokens(Red := [2, - 1, - 1, - 1], Blue := [- 1, 5, - 1, - 1]),
       isRolling = False, winner = None, rollBtnDisabled = True \<rparr>"

text \<open>
  Red's token 0 on home index 3, a 6 rolled; and the state \<^verbatim>\<open>moveToken\<close> makes of it.
\<close>

definition homeState :: game_state where
  "homeState =
     \<lparr> currentPlayerIndex = 0, diceRoll = Some 6, rollCount = 1,
       tokens = initTokens(Red := [103, - 1, - 1, - 1]),
       isRolling = False, winner = None, rollBtnDisabled = True \<rparr>"

definition homeOvershot :: game_state where
  "homeOvershot =
     \<lparr> currentPlayerIndex = 0, diceRoll = None, rollCount = 0,
       tokens = initTokens(Red := [109, - 1, - 1, - 1]),
       isRolling = False, winner = None, rollBtnDisabled = False \<rparr>"

text \<open>
  Red's token 0 on square 47, a 6 rolled.
\<close>

definition redState :: game_state where
  "redState =
     \<lparr> currentPlayerIndex = 0, diceRoll = Some 6, rollCount = 1,
       tokens = initTokens(Red := [47, - 1, - 1, - 1]),
       isRolling = False, winner = None, rollBtnDisabled = True \<rparr>"

text \<open>
  Three yellow tokens on home index 5, the fourth on home index 4, yellow to move with a 1.
\<close>

definition lastYellowState :: game_state where
  "lastYellowState =
     \<lparr> currentPlayerIndex = 3, diceRoll = Some 1, rollCount = 1,
       tokens = initTokens(Yellow := [105, 105, 105, 104]),
       isRolling = False, winner = None, rollBtnDisabled = True \<rparr>"

text \<open>
  All four yellow tokens on home index 5, yellow to roll, and no winner recorded; and the
  state with the winner set, as \<^verbatim>\<open>checkWin\<close> leaves it.
\<close>

definition allHomeState :: game_state where
  "allHomeState =
     \<lparr> currentPlayerIndex = 3, diceRoll = None, rollCount = 0,
       tokens = initTokens(Yellow := [105, 105, 105, 105]),
       isRolling = False, winner = None, rollBtnDisabled = False \<rparr>"

definition wonState :: game_state where
  "wonState =
     \<lparr> currentPlayerIndex = 0, diceRoll = None, rollCount = 0,
       tokens = initTokens(Yellow := [105, 105, 105, 105]),
       isRolling = False, winner = Some Yellow, rollBtnDisabled = True \<rparr>"

text \<open>
  A game from the start: red rolls 6, 6, 6 and 2 and takes token 0 out and on to square 14;
  blue rolls a 6, takes token 0 out to its start square 13, and rolls a 1.
\<close>

definition captureRun :: "event list" where
  "captureRun =
     [RollClick 6, TokenClick Red 0, RollClick 6, TokenClick Red 0,
      RollClick 6, TokenClick Red 0, RollClick 2, TokenClick Red 0,
      RollClick 6, TokenClick Blue 0, RollClick 1]"

text \<open>
  The state that game ends in, and the state after blue has then moved token 0 by the 1.
\<close>

definition beforeCapture :: game_state where
  "beforeCapture =
     \<lparr> currentPlayerIndex = 1, diceRoll = Some 1, rollCount = 1,
       tokens = initTokens(Red := [14, - 1, - 1, - 1], Blue := [13, - 1, - 1, - 1]),
       isRolling = False, winner = None, rollBtnDisabled = True \<rparr>"

definition sharedSquare :: game_state where
  "sharedSquare =
     \<lparr> currentPlayerIndex = 2, diceRoll = None, rollCount = 0,
       tokens = initTokens(Red := [14, - 1, - 1, - 1], Blue := [14, - 1, - 1, - 1]),
       isRolling = False, winner = None, rollBtnDisabled = False \<rparr>"

section \<open>Basic facts\<close>

subsection \<open>Arrays of tokens\<close>

lemma color_cases4: "(\<forall>c. P c) = (P Red \<and> P Blue \<and> P Green \<and> P Yellow)"
  by (metis color.exhaust)

lemma in_PLAYER_COLORS: "c \<in> set PLAYER_COLORS"
  by (cases c) (simp_all add: PLAYER_COLORS_def)

lemma wf_state_length: "wf_state s = (\<forall>c. length (tokens s c) = TOKEN_COUNT)"
  by (simp add: wf_state_def PLAYER_COLORS_def color_cases4)

lemma wf_state_tokens: "tokens s' = tokens s \<Longrightarrow> wf_state s' = wf_state s"
  by (simp add: wf_state_def)

lemma wf_initialState: "wf_state initialState"
  by (simp add: wf_state_length initialState_def initTokens_def)

lemma TOKEN_COUNT_pos: "(0::nat) < TOKEN_COUNT"
  by (simp add: TOKEN_COUNT_def)

lemma upt_TOKEN_COUNT: "[0..<TOKEN_COUNT] = [0, 1, 2, 3]"
  by (simp add: TOKEN_COUNT_def upt_rec)

lemma isOccupiedByPlayer_iff:
  "isOccupiedByPlayer s c p = (\<exists>i<TOKEN_COUNT. tokens s c ! i = p)"
  by (auto simp: isOccupiedByPlayer_def list_ex_iff)

lemma isOccupiedByPlayer_set:
  "wf_state s \<Longrightarrow> isOccupiedByPlayer s c p = (p \<in> set (tokens s c))"
  by (auto simp: isOccupiedByPlayer_iff wf_state_length in_set_conv_nth)

lemma isSafeSpot_iff: "isSafeSpot p = (p \<in> {0, 8, 13, 21, 26, 34, 39, 47})"
  by (simp add: isSafeSpot_def SAFE_SPOTS_def)

lemma isSafeSpot_START: "isSafeSpot (START_INDICES c)"
  by (cases c) (simp_all add: isSafeSpot_def SAFE_SPOTS_def)

lemma tokens_setTokenPos:
  "tokens (setTokenPos s c i p) = (tokens s)(c := (tokens s c)[i := p])"
  by (simp add: setTokenPos_def)

lemma setTokenPos_length:
  "length (tokens (setTokenPos s c i p) c') = length (tokens s c')"
  by (simp add: setTokenPos_def)

lemma setTokenPos_nth:
  "j < length (tokens s c') \<Longrightarrow>
   tokens (setTokenPos s c i p) c' ! j = (if c' = c \<and> j = i then p else tokens s c' ! j)"
  by (auto simp: setTokenPos_def nth_list_update)

subsection \<open>Animation and capture\<close>

text \<open>
  The facts about \<^verbatim>\<open>killTokensAt\<close> say what it does with the square it is given;
  \<^verbatim>\<open>moveToken\<close> gives it none.
\<close>

lemma animate_empties: "snd (animateTokenMovement s c i path) = []"
  by (induction path arbitrary: s) auto

lemma animate_tokens:
  "tokens (fst (animateTokenMovement s c i path)) =
     (if path = [] then tokens s else (tokens s)(c := (tokens s c)[i := last path]))"
  by (induction path arbitrary: s) (auto simp: tokens_setTokenPos)

lemma animate_other:
  "currentPlayerIndex (fst (animateTokenMovement s c i path)) = currentPlayerIndex s"
  "diceRoll (fst (animateTokenMovement s c i path)) = diceRoll s"
  "rollCount (fst (animateTokenMovement s c i path)) = rollCount s"
  "isRolling (fst (animateTokenMovement s c i path)) = isRolling s"
  "winner (fst (animateTokenMovement s c i path)) = winner s"
  "rollBtnDisabled (fst (animateTokenMovement s c i path)) = rollBtnDisabled s"
  by (induction path arbitrary: s; simp add: setTokenPos_def)+

lemma sendToBase_other:
  "currentPlayerIndex (sendToBase s tks) = currentPlayerIndex s"
  "diceRoll (sendToBase s tks) = diceRoll s"
  "rollCount (sendToBase s tks) = rollCount s"
  "isRolling (sendToBase s tks) = isRolling s"
  "winner (sendToBase s tks) = winner s"
  "rollBtnDisabled (sendToBase s tks) = rollBtnDisabled s"
  by (induction s tks rule: sendToBase.induct; simp add: setTokenPos_def)+

lemma sendToBase_length:
  "length (tokens (sendToBase s tks) c) = length (tokens s c)"
  by (induction s tks rule: sendToBase.induct) (auto simp: setTokenPos_def)

lemma sendToBase_nth:
  "j < length (tokens s c) \<Longrightarrow>
   tokens (sendToBase s tks) c ! j = (if (c, j) \<in> set tks then - 1 else tokens s c ! j)"
proof (induction s tks rule: sendToBase.induct)
  case (1 s)
  then show ?case by simp
next
  case (2 s player tokenIndex tks)
  let ?s = "setTokenPos s player tokenIndex (- 1)"
  have "j < length (tokens ?s c)"
    using "2.prems" by (simp add: setTokenPos_length)
  then have "tokens (sendToBase ?s tks) c ! j =
      (if (c, j) \<in> set tks then - 1 else tokens ?s c ! j)"
    by (rule "2.IH")
  then show ?case
    using "2.prems" by (auto simp: setTokenPos_nth)
qed

lemma set_getTokensAtPosition:
  "((c, i) \<in> set (getTokensAtPosition s pos ex)) =
     (c \<noteq> ex \<and> i < TOKEN_COUNT \<and> tokens s c ! i = pos)"
  unfolding getTokensAtPosition_def set_concat set_map
  using in_PLAYER_COLORS [of c] by (auto split: if_splits)

lemma killTokensAt_nth:
  assumes "j < length (tokens s c)" "length (tokens s c) = TOKEN_COUNT"
  shows "tokens (killTokensAt s (Some pos) ex) c ! j =
     (if \<not> isSafeSpot pos \<and> \<not> isHomePosition pos \<and> c \<noteq> ex \<and> tokens s c ! j = pos
      then - 1 else tokens s c ! j)"
  using assms by (auto simp: sendToBase_nth set_getTokensAtPosition)

lemma killTokensAt_length:
  "length (tokens (killTokensAt s p ex) c) = length (tokens s c)"
  by (cases p) (simp_all add: sendToBase_length)

lemma killTokensAt_same_color:
  "tokens (killTokensAt s p ex) ex = tokens s ex"
proof (cases p)
  case None
  then show ?thesis by simp
next
  case (Some pos)
  have "(ex, j) \<notin> set (getTokensAtPosition s pos ex)" for j
    by (simp add: set_getTokensAtPosition)
  then have "tokens (sendToBase s (getTokensAtPosition s pos ex)) ex ! j = tokens s ex ! j"
    if "j < length (tokens s ex)" for j
    using that by (simp add: sendToBase_nth)
  then show ?thesis
    using Some by (auto intro: nth_equalityI simp: sendToBase_length)
qed

lemma killTokensAt_other:
  "currentPlayerIndex (killTokensAt s p ex) = currentPlayerIndex s"
  "diceRoll (killTokensAt s p ex) = diceRoll s"
  "rollCount (killTokensAt s p ex) = rollCount s"
  "isRolling (killTokensAt s p ex) = isRolling s"
  "winner (killTokensAt s p ex) = winner s"
  "rollBtnDisabled (killTokensAt s p ex) = rollBtnDisabled s"
  by (cases p; simp add: sendToBase_other)+

subsection \<open>The end of a move\<close>

lemma checkWin_tokens: "tokens (checkWin s c) = tokens s"
  by (simp add: checkWin_def)

lemma checkWin_fields:
  "currentPlayerIndex (checkWin s c) = currentPlayerIndex s"
  "diceRoll (checkWin s c) = diceRoll s"
  "rollCount (checkWin s c) = rollCount s"
  "isRolling (checkWin s c) = isRolling s"
  by (simp_all add: checkWin_def)

lemma finalizeMove_tokens: "tokens (finalizeMove s c d) = tokens s"
  by (simp add: finalizeMove_def checkWin_tokens Let_def)

lemma finalizeMove_fields:
  "currentPlayerIndex (finalizeMove s c d) =
     (if d = 6 then currentPlayerIndex s else (currentPlayerIndex s + 1) mod 4)"
  "diceRoll (finalizeMove s c d) = None"
  "rollCount (finalizeMove s c d) = 0"
  "isRolling (finalizeMove s c d) = False"
  by (simp_all add: finalizeMove_def checkWin_fields Let_def getNextPlayerIndex_def
      PLAYER_COLORS_def)

lemma finalizeMove_button:
  "rollBtnDisabled (finalizeMove s c d) \<Longrightarrow> winner (finalizeMove s c d) = Some c"
  by (auto simp: finalizeMove_def checkWin_def Let_def split: if_splits)

lemma finalizeMove_winner:
  "winner (finalizeMove s c d) = (if list_all (\<lambda>pos. pos = 105) (tokens s c) then Some c else winner s)"
  by (auto simp: finalizeMove_def checkWin_def Let_def)

lemma finalizeMove_turn:
  assumes "currentPlayerIndex k = n"
  shows "if d = 6
     then currentPlayerIndex (finalizeMove k c d) = n \<and> diceRoll (finalizeMove k c d) = None \<and>
          \<not> isRolling (finalizeMove k c d) \<and>
          (rollBtnDisabled (finalizeMove k c d) \<longrightarrow> winner (finalizeMove k c d) = Some c)
     else currentPlayerIndex (finalizeMove k c d) = (n + 1) mod 4"
proof (cases "d = 6")
  case True
  show ?thesis
    using assms finalizeMove_button [of k c 6] unfolding True
    by (simp add: finalizeMove_fields)
next
  case False
  then show ?thesis using assms by (simp add: finalizeMove_fields)
qed

lemma finalizeMove_win_locks:
  "winner (finalizeMove s c d) \<noteq> winner s \<Longrightarrow>
   diceRoll (finalizeMove s c d) = None \<and> rollBtnDisabled (finalizeMove s c d) \<and>
   \<not> isRolling (finalizeMove s c d)"
  by (auto simp: finalizeMove_def checkWin_def Let_def split: if_splits)

subsection \<open>Paths and landing squares\<close>

lemma last_upto: "i \<le> j \<Longrightarrow> last [i..j] = j"
  by (simp add: upto_rec2)

lemma upto_Nil_iff: "([i..j] = []) = (j < i)"
  by simp

lemma lastStep_map_upto:
  "lastStep (map f [i..j]) = (if j < i then None else Some (f j))"
  by (simp add: lastStep_def last_map last_upto)

lemma jsRem_nonneg: "0 \<le> a \<Longrightarrow> jsRem a 52 = a mod 52"
  by (simp add: jsRem_def)

lemma distToHomeEntry_eq:
  "0 \<le> p \<Longrightarrow> p < 52 \<Longrightarrow>
   jsRem (HOME_ENTRY_INDICES c - p + 52) 52 = (HOME_ENTRY_INDICES c - p + 52) mod 52"
  by (cases c) (simp_all add: jsRem_def)

lemma landing_base: "landing c (- 1) d = START_INDICES c"
  by (simp add: landing_def movePath_def lastStep_def)

lemma landing_track:
  assumes "0 \<le> p" "p < 52" "1 \<le> d"
  shows "landing c p d =
     (let dist = (HOME_ENTRY_INDICES c - p + 52) mod 52
      in if d \<le> dist then (p + d) mod 52 else 100 + (d - dist - 1))"
  using assms
  by (auto simp: landing_def movePath_def Let_def lastStep_map_upto distToHomeEntry_eq
      jsRem_nonneg lastStep_def last_map last_upto)

lemma landing_home:
  assumes "100 \<le> p" "1 \<le> d"
  shows "landing c p d = p + d"
  using assms
  by (auto simp: landing_def movePath_def Let_def lastStep_map_upto)

lemma landing_nonpos:
  assumes "d \<le> 0" "p \<noteq> - 1"
  shows "landing c p d = p"
  using assms
  by (auto simp: landing_def movePath_def Let_def lastStep_map_upto distToHomeEntry_eq
      lastStep_def)

subsection \<open>What moveToken does to the tokens\<close>

lemma canMoveToken_movable: "canMoveToken s c p d \<Longrightarrow> movable s c p d"
  by (auto simp: canMoveToken_def movable_def split: if_splits)

text \<open>
  The array is empty when the callback reads it, so \<^verbatim>\<open>killTokensAt\<close> receives
  \<^verbatim>\<open>undefined\<close> and a move is the animation followed by \<^verbatim>\<open>finalizeMove\<close>.
\<close>

lemma moveToken_eq:
  assumes "i < length (tokens s c)" "movable s c (tokens s c ! i) d"
  shows "moveToken s c i d =
     Inr (finalizeMove
           (fst (animateTokenMovement (s\<lparr>isRolling := True\<rparr>) c i
                   (movePath c (tokens s c ! i) d))) c d)"
  using assms
  by (auto simp: moveToken_def movable_def Let_def split_beta animate_empties lastStep_def
      split: if_splits)

lemma canMoveToken_moveToken:
  assumes "i < length (tokens s c)" "canMoveToken s c (tokens s c ! i) d"
  shows "\<exists>s'. moveToken s c i d = Inr s'"
  using moveToken_eq [OF assms(1) canMoveToken_movable [OF assms(2)]] by simp

lemma animate_tokens_landing:
  "tokens s c ! i = p \<Longrightarrow> i < length (tokens s c) \<Longrightarrow>
   tokens (fst (animateTokenMovement s c i (movePath c p d))) =
     (tokens s)(c := (tokens s c)[i := landing c p d])"
  by (auto simp: animate_tokens landing_def lastStep_def)

lemma moveToken_own:
  assumes "i < length (tokens s c)" "movable s c (tokens s c ! i) d"
    and "moveToken s c i d = Inr s'"
  shows "tokens s' c = (tokens s c)[i := landing c (tokens s c ! i) d]"
  using assms(3) unfolding moveToken_eq [OF assms(1,2)]
  using assms(1)
  by (auto simp: finalizeMove_tokens animate_tokens_landing)

text \<open>No token of another colour is touched: nothing is ever captured.\<close>

lemma moveToken_opponent:
  assumes "moveToken s c i d = Inr s'" "c' \<noteq> c"
  shows "tokens s' c' = tokens s c'"
  using assms
  by (auto simp: moveToken_def Let_def split_beta animate_empties lastStep_def
      finalizeMove_tokens animate_tokens split: if_splits)

lemma moveToken_length:
  assumes "moveToken s c i d = Inr s'"
  shows "length (tokens s' c') = length (tokens s c')"
  using assms
  by (auto simp: moveToken_def Let_def split_beta animate_empties lastStep_def
      finalizeMove_tokens animate_tokens split: if_splits)

lemma moveToken_wf: "wf_state s \<Longrightarrow> moveToken s c i d = Inr s' \<Longrightarrow> wf_state s'"
  by (simp add: wf_state_length moveToken_length)

lemma moveToken_after:
  assumes "i < length (tokens s c)" "canMoveToken s c (tokens s c ! i) d"
    "moveToken s c i d = Inr s'"
  shows "diceRoll s' = None"
    and "winner s' = (if list_all (\<lambda>pos. pos = 105) (tokens s' c) then Some c else winner s)"
proof -
  let ?k = "fst (animateTokenMovement (s\<lparr>isRolling := True\<rparr>) c i
                  (movePath c (tokens s c ! i) d))"
  have eq: "s' = finalizeMove ?k c d"
    using assms by (simp add: moveToken_eq canMoveToken_movable)
  show "diceRoll s' = None"
    unfolding eq by (simp add: finalizeMove_fields)
  have "winner ?k = winner s"
    by (simp add: animate_other)
  then show "winner s' = (if list_all (\<lambda>pos. pos = 105) (tokens s' c) then Some c else winner s)"
    unfolding eq by (simp add: finalizeMove_winner finalizeMove_tokens)
qed

subsection \<open>Legality\<close>

lemma canMoveToken_own_only:
  "tokens s2 c = tokens s c \<Longrightarrow> canMoveToken s2 c p d = canMoveToken s c p d"
  by (simp add: canMoveToken_def isOccupiedByPlayer_def)

lemma canMoveToken_track:
  assumes "0 \<le> p" "p < 52" "1 \<le> d"
  shows "canMoveToken s c p d =
     (let dist = (HOME_ENTRY_INDICES c - p + 52) mod 52
      in if d \<le> dist then \<not> isOccupiedByPlayer s c ((p + d) mod 52)
         else d - dist - 1 \<le> 5 \<and> \<not> isOccupiedByPlayer s c (100 + (d - dist - 1)))"
  using assms
  by (auto simp: canMoveToken_def Let_def distToHomeEntry_eq jsRem_nonneg)

lemma canAnyTokenMove_tokens:
  "tokens s2 = tokens s \<Longrightarrow> canAnyTokenMove s2 c d = canAnyTokenMove s c d"
  by (simp add: canAnyTokenMove_def canMoveToken_def isOccupiedByPlayer_def)

lemma legal_landing_free:
  assumes "canMoveToken s c p d" "1 \<le> d"
  shows "\<not> isOccupiedByPlayer s c (landing c p d)"
proof -
  consider "p = - 1" | "0 \<le> p \<and> p < 52" | "100 \<le> p"
    using canMoveToken_movable [OF assms(1)] by (auto simp: movable_def split: if_splits)
  then show ?thesis
  proof cases
    case 1
    then show ?thesis using assms(1) by (simp add: canMoveToken_def landing_base)
  next
    case 2
    let ?dist = "(HOME_ENTRY_INDICES c - p + 52) mod 52"
    have l1: "landing c p d = (p + d) mod 52" if "d \<le> ?dist"
      using landing_track [of p d c] 2 assms(2) that by (simp add: Let_def)
    have l2: "landing c p d = 100 + (d - ?dist - 1)" if "\<not> d \<le> ?dist"
      using landing_track [of p d c] 2 assms(2) that by (simp add: Let_def)
    have c1: "\<not> isOccupiedByPlayer s c ((p + d) mod 52)" if "d \<le> ?dist"
      using canMoveToken_track [of p d s c] 2 assms that by (simp add: Let_def)
    have c2: "\<not> isOccupiedByPlayer s c (100 + (d - ?dist - 1))" if "\<not> d \<le> ?dist"
      using canMoveToken_track [of p d s c] 2 assms that by (simp add: Let_def)
    show ?thesis
    proof (cases "d \<le> ?dist")
      case True
      show ?thesis unfolding l1 [OF True] by (rule c1 [OF True])
    next
      case False
      show ?thesis unfolding l2 [OF False] by (rule c2 [OF False])
    qed
  next
    case 3
    have "\<not> isOccupiedByPlayer s c (100 + (p - 100 + d))"
      using assms(1) 3 by (simp add: canMoveToken_def Let_def split: if_splits)
    then show ?thesis
      using landing_home [OF 3 assms(2), of c] by simp
  qed
qed

lemma homeLaneOK_iff:
  "homeLaneOK s = (\<forall>c. \<forall>pos \<in> set (tokens s c). pos \<le> 105)"
proof -
  have "(100 \<le> pos \<longrightarrow> pos - 100 \<le> 5) = (pos \<le> 105)" for pos :: int
    by auto
  then show ?thesis
    using in_PLAYER_COLORS
    by (auto simp: homeLaneOK_def list_all_iff isHomePosition_def)
qed

lemma landing_le_105:
  assumes "canMoveToken s c p d" "p \<le> 105"
  shows "landing c p d \<le> 105"
proof (cases "d \<le> 0")
  case True
  show ?thesis
  proof (cases "p = - 1")
    case True
    then show ?thesis by (cases c) (simp_all add: landing_base)
  next
    case False
    then show ?thesis using True assms(2) by (simp add: landing_nonpos)
  qed
next
  case d: False
  consider "p = - 1" | "0 \<le> p \<and> p < 52" | "100 \<le> p"
    using canMoveToken_movable [OF assms(1)] by (auto simp: movable_def split: if_splits)
  then show ?thesis
  proof cases
    case 1
    then show ?thesis by (cases c) (simp_all add: landing_base)
  next
    case 2
    let ?dist = "(HOME_ENTRY_INDICES c - p + 52) mod 52"
    have d1: "1 \<le> d" using d by simp
    have m: "(p + d) mod 52 \<le> 105"
      using pos_mod_bound [of 52 "p + d"] by simp
    have l: "landing c p d = (if d \<le> ?dist then (p + d) mod 52 else 100 + (d - ?dist - 1))"
      using landing_track [of p d c] 2 d1 by (simp add: Let_def)
    have "d - ?dist - 1 \<le> 5" if "\<not> d \<le> ?dist"
      using canMoveToken_track [of p d s c] 2 d1 assms(1) that by (simp add: Let_def)
    then show ?thesis
      unfolding l using m by (cases "d \<le> ?dist") simp_all
  next
    case 3
    have d1: "1 \<le> d" using d by simp
    have "p - 100 + d < 6"
      using assms(1) 3 by (simp add: canMoveToken_def Let_def split: if_splits)
    then show ?thesis
      using landing_home [OF 3 d1, of c] by simp
  qed
qed

lemma moveToken_homeLaneOK:
  assumes "wf_state s" "i < TOKEN_COUNT" "homeLaneOK s" "canMoveToken s c (tokens s c ! i) d"
    "moveToken s c i d = Inr s'"
  shows "homeLaneOK s'"
proof -
  let ?p = "tokens s c ! i"
  have len: "length (tokens s c') = TOKEN_COUNT" for c'
    using assms(1) by (simp add: wf_state_length)
  have i: "i < length (tokens s c)" using assms(2) len by simp
  have mv: "movable s c ?p d" using assms(4) by (rule canMoveToken_movable)
  have old: "tokens s c' ! j \<le> 105" if "j < TOKEN_COUNT" for c' j
  proof -
    have "tokens s c' ! j \<in> set (tokens s c')"
      using that len [of c'] by simp
    then show ?thesis using assms(3) by (simp add: homeLaneOK_iff)
  qed
  have own: "tokens s' c = (tokens s c)[i := landing c ?p d]"
    using moveToken_own [OF i mv assms(5)] .
  have land: "landing c ?p d \<le> 105"
    using assms(4) old [OF assms(2)] by (rule landing_le_105)
  have "tokens s' c' ! j \<le> 105" if j: "j < TOKEN_COUNT" for c' j
  proof (cases "c' = c")
    case True
    then show ?thesis using own land old [OF j, of c] i
      by (cases "j = i") (simp_all add: nth_list_update)
  next
    case False
    show ?thesis
      using moveToken_opponent [OF assms(5) False] old [OF j, of c'] by simp
  qed
  moreover have "length (tokens s' c') = TOKEN_COUNT" for c'
    using moveToken_length [OF assms(5)] len by simp
  ultimately show ?thesis
    by (auto simp: homeLaneOK_iff in_set_conv_nth)
qed

subsection \<open>The handlers\<close>

lemma onRollDice_tokens: "onRollDice s r = Inr s' \<Longrightarrow> tokens s' = tokens s"
  by (auto simp: onRollDice_def Let_def finalizeMove_tokens split: if_splits option.splits)

lemma onRollDice_after:
  assumes "onRollDice s r = Inr s'"
  shows "s' = s \<or> (diceRoll s' = Some r \<and> winner s' = winner s) \<or>
     (diceRoll s' = None \<and>
      (\<exists>c. winner s' = (if list_all (\<lambda>pos. pos = 105) (tokens s c) then Some c else winner s)))"
  using assms
  by (auto simp: onRollDice_def Let_def finalizeMove_fields finalizeMove_winner
      split: if_splits option.splits)

lemma onTokenClick_cases:
  assumes "onTokenClick s c i = Inr s'"
  shows "s' = s \<or> (\<exists>d. diceRoll s = Some d \<and> currentPlayer s = Some c \<and> \<not> isRolling s \<and>
     i < length (tokens s c) \<and> canMoveToken s c (tokens s c ! i) d \<and> moveToken s c i d = Inr s')"
  using assms by (auto simp: onTokenClick_def split: if_splits option.splits)

subsection \<open>Invariants of the reachable states\<close>

lemma ownDistinct_iff:
  "ownDistinct s =
     (\<forall>c. \<forall>j1<TOKEN_COUNT. \<forall>j2<TOKEN_COUNT.
         j1 = j2 \<or> tokens s c ! j1 \<noteq> tokens s c ! j2 \<or> tokens s c ! j1 = - 1)"
  by (simp add: ownDistinct_def list_all_iff in_PLAYER_COLORS Ball_def)

lemma ownDistinctD:
  assumes "ownDistinct s" "j1 < TOKEN_COUNT" "j2 < TOKEN_COUNT" "j1 \<noteq> j2"
    "tokens s c ! j1 = tokens s c ! j2"
  shows "tokens s c ! j1 = - 1"
proof -
  have "j1 = j2 \<or> tokens s c ! j1 \<noteq> tokens s c ! j2 \<or> tokens s c ! j1 = - 1"
    using assms(1,2,3) unfolding ownDistinct_iff by blast
  then show ?thesis using assms(4,5) by blast
qed

lemma ownDistinctI:
  assumes "\<And>c j1 j2. j1 < TOKEN_COUNT \<Longrightarrow> j2 < TOKEN_COUNT \<Longrightarrow> j1 \<noteq> j2 \<Longrightarrow>
    tokens s c ! j1 = tokens s c ! j2 \<Longrightarrow> tokens s c ! j1 = - 1"
  shows "ownDistinct s"
  unfolding ownDistinct_iff using assms by blast

lemma ownDistinct_tokens: "tokens s' = tokens s \<Longrightarrow> ownDistinct s' = ownDistinct s"
  by (simp add: ownDistinct_def)

lemma ownDistinct_no_win:
  assumes "wf_state s" "ownDistinct s"
  shows "\<not> list_all (\<lambda>pos. pos = 105) (tokens s c)"
proof
  assume a: "list_all (\<lambda>pos. pos = 105) (tokens s c)"
  have len: "length (tokens s c) = TOKEN_COUNT"
    using assms(1) by (simp add: wf_state_length)
  have "tokens s c ! 0 = 105" "tokens s c ! 1 = 105"
    using a len by (simp_all add: list_all_length TOKEN_COUNT_def)
  moreover have "tokens s c ! 0 = - 1"
    by (rule ownDistinctD [OF assms(2), of 0 1]) (use calculation in \<open>simp_all add: TOKEN_COUNT_def\<close>)
  ultimately show False by simp
qed

lemma moveToken_ownDistinct:
  assumes wf: "wf_state s" and i: "i < TOKEN_COUNT"
    and legal: "canMoveToken s c (tokens s c ! i) d" and d: "1 \<le> d"
    and s': "moveToken s c i d = Inr s'"
    and od: "ownDistinct s"
  shows "ownDistinct s'"
proof (rule ownDistinctI)
  fix c' j1 j2
  assume j1: "j1 < TOKEN_COUNT" and j2: "j2 < TOKEN_COUNT" and ne: "j1 \<noteq> j2"
    and eq: "tokens s' c' ! j1 = tokens s' c' ! j2"
  let ?L = "landing c (tokens s c ! i) d"
  have len: "length (tokens s c'') = TOKEN_COUNT" for c''
    using wf by (simp add: wf_state_length)
  have il: "i < length (tokens s c)" using i len by simp
  have mv: "movable s c (tokens s c ! i) d" using legal by (rule canMoveToken_movable)
  have free: "tokens s c ! j \<noteq> ?L" if "j < TOKEN_COUNT" for j
    using legal_landing_free [OF legal d] that by (auto simp: isOccupiedByPlayer_iff)
  show "tokens s' c' ! j1 = - 1"
  proof (cases "c' = c")
    case True
    have own: "tokens s' c = (tokens s c)[i := ?L]"
      using moveToken_own [OF il mv s'] .
    have n1: "tokens s' c ! j1 = (if j1 = i then ?L else tokens s c ! j1)"
      using own il j1 len [of c] by (simp add: nth_list_update)
    have n2: "tokens s' c ! j2 = (if j2 = i then ?L else tokens s c ! j2)"
      using own il j2 len [of c] by (simp add: nth_list_update)
    show ?thesis
    proof (cases "j1 = i \<or> j2 = i")
      case True
      then show ?thesis
        using eq n1 n2 ne free [OF j1] free [OF j2] \<open>c' = c\<close> by (auto split: if_splits)
    next
      case False
      then have "tokens s c ! j1 = tokens s c ! j2"
        using eq n1 n2 \<open>c' = c\<close> by simp
      then have "tokens s c ! j1 = - 1"
        by (rule ownDistinctD [OF od j1 j2 ne])
      then show ?thesis using n1 False \<open>c' = c\<close> by simp
    qed
  next
    case False
    have o1: "tokens s' c' ! j1 = - 1 \<or> tokens s' c' ! j1 = tokens s c' ! j1"
      using moveToken_opponent [OF s' False] by simp
    have o2: "tokens s' c' ! j2 = - 1 \<or> tokens s' c' ! j2 = tokens s c' ! j2"
      using moveToken_opponent [OF s' False] by simp
    show ?thesis
    proof (rule ccontr)
      assume n: "tokens s' c' ! j1 \<noteq> - 1"
      then have "tokens s c' ! j1 = tokens s c' ! j2"
        using o1 o2 eq by auto
      then have "tokens s c' ! j1 = - 1"
        by (rule ownDistinctD [OF od j1 j2 ne])
      then show False using n o1 by simp
    qed
  qed
qed

lemma reachable_no_winner_invariant:
  "reachable s \<Longrightarrow>
   wf_state s \<and> ownDistinct s \<and> winner s = None \<and> (\<forall>d. diceRoll s = Some d \<longrightarrow> 1 \<le> d)"
proof (induction rule: reachable.induct)
  case init
  have "ownDistinct initialState"
    by (rule ownDistinctI) (simp add: initialState_def initTokens_def)
  then show ?case
    by (simp add: wf_initialState) (simp add: initialState_def)
next
  case (roll s roll s')
  have t: "tokens s' = tokens s"
    using roll.hyps(4) by (rule onRollDice_tokens)
  have nw: "\<not> list_all (\<lambda>pos. pos = 105) (tokens s c)" for c
    using roll.IH by (simp add: ownDistinct_no_win)
  have "winner s' = None \<and> (\<forall>d. diceRoll s' = Some d \<longrightarrow> 1 \<le> d)"
    using onRollDice_after [OF roll.hyps(4)] roll.IH roll.hyps(2) nw by auto
  then show ?case
    using roll.IH ownDistinct_tokens [OF t] wf_state_tokens [OF t] by simp
next
  case (click s color index s')
  from onTokenClick_cases [OF click.hyps(2)] show ?case
  proof
    assume "s' = s"
    then show ?thesis using click.IH by simp
  next
    assume "\<exists>d. diceRoll s = Some d \<and> currentPlayer s = Some color \<and> \<not> isRolling s \<and>
      index < length (tokens s color) \<and> canMoveToken s color (tokens s color ! index) d \<and>
      moveToken s color index d = Inr s'"
    then obtain d where d: "diceRoll s = Some d" "index < length (tokens s color)"
      "canMoveToken s color (tokens s color ! index) d" "moveToken s color index d = Inr s'"
      by blast
    have i: "index < TOKEN_COUNT" using d(2) click.IH by (simp add: wf_state_length)
    have d1: "1 \<le> d" using d(1) click.IH by simp
    have wf': "wf_state s'"
      using click.IH moveToken_wf [OF _ d(4)] by simp
    have od': "ownDistinct s'"
      using click.IH moveToken_ownDistinct [OF _ i d(3) d1 d(4)] by simp
    have "winner s' = None"
      using moveToken_after(2) [OF d(2,3,4)] ownDistinct_no_win [OF wf' od', of color] click.IH
      by simp
    then show ?thesis
      using wf' od' moveToken_after(1) [OF d(2,3,4)] by simp
  qed
qed

lemma no_winner_reachable: "reachable s \<Longrightarrow> winner s = None"
  by (simp add: reachable_no_winner_invariant)

text \<open>
  A roll taken through the button is a roll of \<^verbatim>\<open>onRollDice\<close> or nothing at all, so the
  reachable states are closed under it.
\<close>

lemma reachable_rollBtnClick:
  assumes "reachable s" "1 \<le> roll" "roll \<le> 6" "rollBtnClick s roll = Inr s'"
  shows "reachable s'"
proof (cases "rollBtnDisabled s")
  case True
  then show ?thesis using assms(1,4) by (simp add: rollBtnClick_def)
next
  case False
  then have "onRollDice s roll = Inr s'"
    using assms(4) by (simp add: rollBtnClick_def)
  then show ?thesis
    using assms(1,2,3) by (rule reachable.roll [rotated 3])
qed

lemma reachable_runEvents:
  assumes "reachable s" "dieValues evs" "runEvents s evs = Inr s'"
  shows "reachable s'"
  using assms
proof (induction evs arbitrary: s)
  case Nil
  then show ?case by simp
next
  case (Cons e evs)
  from Cons.prems(3) obtain s1 where s1: "handleEvent s e = Inr s1" "runEvents s1 evs = Inr s'"
    by (auto split: sum.splits)
  have rest: "dieValues evs"
    using Cons.prems(2) by (simp add: dieValues_def)
  have "reachable s1"
  proof (cases e)
    case (RollClick roll)
    then have "1 \<le> roll" "roll \<le> 6" "rollBtnClick s roll = Inr s1"
      using Cons.prems(2) s1(1) by (simp_all add: dieValues_def)
    then show ?thesis
      using Cons.prems(1) by (intro reachable_rollBtnClick [of s roll s1])
  next
    case (TokenClick c i)
    then show ?thesis
      using Cons.prems(1) s1(1) by (auto intro: reachable.click)
  qed
  then show ?case
    using rest s1(2) by (rule Cons.IH)
qed

text \<open>
  Once a colour has a token on home index 5 (position 105), no legal move of that colour
  lands there.
\<close>

lemma finished_square_blocked:
  assumes "isOccupiedByPlayer s c 105" "canMoveToken s c p d" "1 \<le> d"
  shows "landing c p d \<noteq> 105"
  using legal_landing_free [OF assms(2,3)] assms(1) by auto

subsection \<open>Evaluation on concrete states\<close>

lemma upt_4: "[0..<4] = [0, 1, 2, 3]"
  by (simp add: upt_rec)

lemma initTokens_apply: "initTokens c = [- 1, - 1, - 1, - 1]"
  by (simp add: initTokens_def TOKEN_COUNT_def numeral_eq_Suc)

lemmas eval_defs = upt_4 upto_rec1 initTokens_apply split_beta
  onRollDice_def onTokenClick_def rollBtnClick_def currentPlayer_def PLAYER_COLORS_def
  canAnyTokenMove_def canMoveToken_def isOccupiedByPlayer_def upt_TOKEN_COUNT jsRem_def
  finalizeMove_def checkWin_def getNextPlayerIndex_def moveToken_def movePath_def
  setTokenPos_def lastStep_def isSafeSpot_def SAFE_SPOTS_def isHomePosition_def
  getTokensAtPosition_def TOKEN_COUNT_def wf_state_def Let_def

lemma wf_captureState: "wf_state captureState"
  by (simp add: captureState_def eval_defs)

lemma legal_captureState: "canMoveToken captureState Red (tokens captureState Red ! 0) 3"
  by (simp add: captureState_def eval_defs)

lemma wf_homeState: "wf_state homeState"
  by (simp add: homeState_def eval_defs)

lemma homeLaneOK_homeState: "homeLaneOK homeState"
  by (simp add: homeLaneOK_def homeState_def eval_defs)

lemma wf_redState: "wf_state redState"
  by (simp add: redState_def eval_defs)

lemma run_captureRun: "runEvents initialState captureRun = Inr beforeCapture"
  by (simp add: captureRun_def initialState_def beforeCapture_def eval_defs)

lemma dieValues_captureRun: "dieValues captureRun"
  by (simp add: dieValues_def captureRun_def)

lemma click_beforeCapture: "onTokenClick beforeCapture Blue 0 = Inr sharedSquare"
  by (simp add: beforeCapture_def sharedSquare_def eval_defs)

lemma reachable_beforeCapture: "reachable beforeCapture"
  using reachable.init dieValues_captureRun run_captureRun by (rule reachable_runEvents)

subsection \<open>Why timers are run to their end\<close>

text \<open>
  While a token is animated \<^verbatim>\<open>isRolling\<close> is set, and both handlers return at once.
\<close>

lemma handlers_idle_while_rolling:
  assumes "isRolling s"
  shows "onRollDice s roll = Inr s" and "onTokenClick s c i = Inr s"
  using assms by (simp_all add: onRollDice_def onTokenClick_def split: option.splits)

text \<open>
  While the pass timer is pending the dice is still set and no token of the current
  player is movable, so again both handlers return at once.
\<close>

lemma canAnyTokenMove_iff:
  "canAnyTokenMove s c d = (\<exists>i<TOKEN_COUNT. canMoveToken s c (tokens s c ! i) d)"
proof -
  have "canMoveToken s c (- 1) d = (d = 6 \<and> \<not> isOccupiedByPlayer s c (START_INDICES c))"
    by (simp add: canMoveToken_def)
  then show ?thesis
    unfolding canAnyTokenMove_def list_ex_iff by (simp add: Bex_def) metis
qed

lemma pass_timer_window:
  assumes "diceRoll s = Some d" "currentPlayer s = Some c" "\<not> canAnyTokenMove s c d"
    "i < TOKEN_COUNT" "wf_state s"
  shows "onRollDice s roll = Inr s" and "onTokenClick s c' i = Inr s"
proof -
  show "onRollDice s roll = Inr s"
    using assms(1) by (simp add: onRollDice_def)
  have "\<not> canMoveToken s c (tokens s c ! i) d"
    using assms(3,4) by (auto simp: canAnyTokenMove_iff)
  then show "onTokenClick s c' i = Inr s"
    using assms(1,2,4,5) by (auto simp: onTokenClick_def wf_state_length)
qed

text \<open>
  For the player whose turn it is, a click on a movable token is \<^verbatim>\<open>moveToken\<close> with the
  pending dice.
\<close>

lemma onTokenClick_legal:
  assumes "currentPlayer s = Some c" "diceRoll s = Some d" "\<not> isRolling s"
    "i < length (tokens s c)" "canMoveToken s c (tokens s c ! i) d"
  shows "onTokenClick s c i = moveToken s c i d"
  using assms by (simp add: onTokenClick_def)

text \<open>
  Called without the guard of \<^verbatim>\<open>onTokenClick\<close>, \<^verbatim>\<open>moveToken\<close> takes the last yellow
  token to home index 5 and \<^verbatim>\<open>checkWin\<close> declares yellow the winner.
\<close>

lemma unguarded_last_move_wins: "moveToken lastYellowState Yellow 3 1 = Inr wonState"
  by (simp add: lastYellowState_def wonState_def eval_defs)

subsection \<open>The winner is written with the lock\<close>

text \<open>
  \<^verbatim>\<open>winner\<close> is assigned in \<^verbatim>\<open>checkWin\<close> only, at the end of \<^verbatim>\<open>finalizeMove\<close>, after the
  dice has been cleared and together with the disabling of the roll button.
\<close>

lemma finalizeMove_winnerLocked:
  "winner k = None \<Longrightarrow> winnerLocked (finalizeMove k c d)"
  by (auto simp: winnerLocked_def finalizeMove_def checkWin_def Let_def)

lemma moveToken_winnerLocked:
  assumes "winner s = None" "moveToken s c i d = Inr s'"
  shows "winnerLocked s'"
proof -
  have a: "winner (fst (animateTokenMovement (s\<lparr>isRolling := True\<rparr>) c i path)) = None"
    for path
    using assms(1) by (simp add: animate_other)
  have s: "winnerLocked s"
    using assms(1) by (simp add: winnerLocked_def)
  show ?thesis
    using assms(2) s finalizeMove_winnerLocked [OF a]
    by (auto simp: moveToken_def Let_def split_beta animate_empties lastStep_def
        split: if_splits)
qed

lemma onRollDice_winnerLocked:
  assumes "winner s = None" "onRollDice s roll = Inr s'"
  shows "winnerLocked s'"
proof -
  have "winnerLocked (finalizeMove
      (s\<lparr>diceRoll := Some roll, rollCount := rollCount s + 1, rollBtnDisabled := True\<rparr>) c roll)"
    for c
    using assms(1) by (intro finalizeMove_winnerLocked) simp
  then show ?thesis
    using assms
    by (auto simp: onRollDice_def Let_def winnerLocked_def split: if_splits option.splits)
qed

lemma handleEvent_winnerLocked:
  assumes "winnerLocked s" "handleEvent s e = Inr s'"
  shows "winnerLocked s'"
proof (cases "winner s = None")
  case True
  show ?thesis
  proof (cases e)
    case (RollClick roll)
    then show ?thesis
      using assms True onRollDice_winnerLocked [OF True, of roll s']
      by (auto simp: rollBtnClick_def split: if_splits)
  next
    case (TokenClick c i)
    then show ?thesis
      using assms True moveToken_winnerLocked [OF True, of c i _ s']
      by (auto simp: onTokenClick_def split: if_splits option.splits)
  qed
next
  case False
  then have "diceRoll s = None" "rollBtnDisabled s"
    using assms(1) by (simp_all add: winnerLocked_def)
  then have "s' = s"
    using assms(2) by (cases e) (auto simp: rollBtnClick_def onTokenClick_def split: if_splits)
  then show ?thesis using assms(1) by simp
qed

lemma runEvents_winnerLocked:
  assumes "winnerLocked s" "runEvents s evs = Inr s'"
  shows "winnerLocked s'"
  using assms
proof (induction evs arbitrary: s)
  case Nil
  then show ?case by simp
next
  case (Cons e evs)
  from Cons.prems(2) obtain s1 where s1: "handleEvent s e = Inr s1" "runEvents s1 evs = Inr s'"
    by (auto split: sum.splits)
  have "winnerLocked s1"
    using Cons.prems(1) s1(1) by (rule handleEvent_winnerLocked)
  then show ?case
    using s1(2) by (rule Cons.IH)
qed

lemma winnerLocked_absorbing:
  assumes "winnerLocked s" "winner s \<noteq> None"
  shows "rollBtnClick s roll = Inr s" and "onTokenClick s c i = Inr s"
    and "runEvents s evs = Inr s"
proof -
  have l: "diceRoll s = None" "rollBtnDisabled s"
    using assms by (simp_all add: winnerLocked_def)
  show 1: "rollBtnClick s r = Inr s" for r
    using l(2) by (simp add: rollBtnClick_def)
  show 2: "onTokenClick s c' j = Inr s" for c' j
    using l(1) by (simp add: onTokenClick_def)
  have "handleEvent s e = Inr s" for e
    by (cases e) (simp_all add: 1 2)
  then show "runEvents s evs = Inr s"
    by (induction evs) simp_all
qed

section \<open>The claims\<close>

subsection \<open>C1\<close>

text \<open>
  Claim C1 says that with three yellow tokens finished (home index 5) and the fourth on
  home index 4, a dice value of 1 is a legal move that finishes the token and makes yellow
  the winner. In the code the move is not legal: \<^verbatim>\<open>canMoveToken\<close> finds home index 5
  occupied by yellow's own finished tokens, \<^verbatim>\<open>canAnyTokenMove\<close> is false as well, the click
  on the token changes nothing and the winner stays unset.
\<close>

theorem last_yellow_token_blocked:
  "tokens lastYellowState Yellow = [105, 105, 105, 104] \<and>
   currentPlayer lastYellowState = Some Yellow \<and> diceRoll lastYellowState = Some 1 \<and>
   \<not> canMoveToken lastYellowState Yellow (tokens lastYellowState Yellow ! 3) 1 \<and>
   \<not> canAnyTokenMove lastYellowState Yellow 1 \<and>
   onTokenClick lastYellowState Yellow 3 = Inr lastYellowState \<and>
   winner lastYellowState = None"
  by (simp add: lastYellowState_def eval_defs)

subsection \<open>C2\<close>

text \<open>
  Claim C2 says that a legal move landing on a non-safe index of the shared track sends
  every opponent token on that index to the base, and that nothing is captured on a safe
  spot or in a home column. The second half holds, since the code captures nothing at all:
  when the callback of \<^verbatim>\<open>moveToken\<close> reads the last element of \<^verbatim>\<open>path\<close>, the animation has
  emptied that array, and \<^verbatim>\<open>killTokensAt\<close> is called with \<^verbatim>\<open>undefined\<close>. After the
  game \<open>captureRun\<close> red's token 0 stands on the non-safe index 14, blue's token 0 on 13,
  and blue has rolled a 1: the move is legal, blue lands on 14 and red's token is still
  there.
\<close>

theorem capture_never_fires:
  "runEvents initialState captureRun = Inr beforeCapture \<and> dieValues captureRun \<and>
   tokens beforeCapture Red ! 0 = 14 \<and> tokens beforeCapture Blue ! 0 = 13 \<and>
   \<not> isSafeSpot 14 \<and> diceRoll beforeCapture = Some 1 \<and>
   canMoveToken beforeCapture Blue (tokens beforeCapture Blue ! 0) 1 \<and>
   onTokenClick beforeCapture Blue 0 = Inr sharedSquare \<and>
   tokens sharedSquare Blue ! 0 = 14 \<and> tokens sharedSquare Red ! 0 = 14"
  using run_captureRun dieValues_captureRun click_beforeCapture
  by (simp add: isSafeSpot_iff) (simp add: beforeCapture_def sharedSquare_def eval_defs)

subsection \<open>C3\<close>

text \<open>
  Claim C3, as amended: when the move is not legal, \<^verbatim>\<open>onTokenClick\<close> returns without an
  error and without any change of the state; \<^verbatim>\<open>moveToken\<close> itself fails with an error when
  the token is in the base (no 6, or the start square held by an own token), and the state
  at the throw is the state it was called in.
\<close>

theorem illegal_move_rejected:
  assumes "i < length (tokens s c)" "\<not> canMoveToken s c (tokens s c ! i) d"
  shows "(diceRoll s = Some d \<longrightarrow> onTokenClick s c i = Inr s) \<and>
     (tokens s c ! i = - 1 \<longrightarrow>
        moveToken s c i d = Inl (if d \<noteq> 6 then NoSixFromBase else StartOccupied, s))"
  using assms by (auto simp: onTokenClick_def moveToken_def canMoveToken_def Let_def)

theorem illegal_move_rejected_witness:
  "0 < length (tokens homeState Red) \<and>
   \<not> canMoveToken homeState Red (tokens homeState Red ! 0) 6 \<and>
   diceRoll homeState = Some 6 \<and> onTokenClick homeState Red 0 = Inr homeState \<and>
   0 < length (tokens initialState Red) \<and>
   \<not> canMoveToken initialState Red (tokens initialState Red ! 0) 3 \<and>
   tokens initialState Red ! 0 = - 1 \<and>
   moveToken initialState Red 0 3 = Inl (NoSixFromBase, initialState)"
proof -
  have h: "0 < length (tokens homeState Red)"
    "\<not> canMoveToken homeState Red (tokens homeState Red ! 0) 6"
    "diceRoll homeState = Some 6"
    by (simp_all add: homeState_def eval_defs)
  have b: "0 < length (tokens initialState Red)"
    "\<not> canMoveToken initialState Red (tokens initialState Red ! 0) 3"
    "tokens initialState Red ! 0 = - 1"
    by (simp_all add: initialState_def eval_defs)
  show ?thesis
    using illegal_move_rejected [OF h(1,2)] illegal_move_rejected [OF b(1,2)] h b
    by simp
qed

text \<open>
  As the claim states it, applying an illegal move fails with an error and changes
  nothing. For red's token on home index 3 and a 6 the move is not legal, yet
  \<^verbatim>\<open>moveToken\<close> returns normally with the token on position 109, and \<^verbatim>\<open>onTokenClick\<close>
  returns normally as well.
\<close>

theorem illegal_move_applied_counterexample:
  "\<not> canMoveToken homeState Red (tokens homeState Red ! 0) 6 \<and>
   moveToken homeState Red 0 6 = Inr homeOvershot \<and>
   tokens homeState Red ! 0 = 103 \<and> tokens homeOvershot Red ! 0 = 109 \<and>
   onTokenClick homeState Red 0 = Inr homeState"
  by (simp add: homeState_def homeOvershot_def eval_defs)

subsection \<open>C4\<close>

text \<open>
  Claim C4: for a token on shared-track index \<open>i\<close> and a dice value of at least 1, with
  \<open>d = (homeEntry - i + 52) mod 52\<close>: if \<open>dice \<le> d\<close> the token lands on track index
  \<open>(i + dice) mod 52\<close> and the move is legal iff no token of the same colour stands there;
  if \<open>dice > d\<close> it lands on home index \<open>dice - d - 1\<close> and the move is legal iff that index
  is at most 5 and holds no token of the same colour. Legality depends on the mover's own
  tokens only.
\<close>

theorem track_move_rule:
  assumes "wf_state s" "k < TOKEN_COUNT" "tokens s c ! k = i" "0 \<le> i" "i < 52" "1 \<le> dice"
  shows "let d = (HOME_ENTRY_INDICES c - i + 52) mod 52 in
     (dice \<le> d \<longrightarrow>
        (\<exists>s'. moveToken s c k dice = Inr s' \<and> tokens s' c ! k = (i + dice) mod 52) \<and>
        (canMoveToken s c i dice = (\<not> isOccupiedByPlayer s c ((i + dice) mod 52)))) \<and>
     (dice > d \<longrightarrow>
        (\<exists>s'. moveToken s c k dice = Inr s' \<and> tokens s' c ! k = 100 + (dice - d - 1)) \<and>
        (canMoveToken s c i dice =
           (dice - d - 1 \<le> 5 \<and> \<not> isOccupiedByPlayer s c (100 + (dice - d - 1))))) \<and>
     (\<forall>s2. tokens s2 c = tokens s c \<longrightarrow> canMoveToken s2 c i dice = canMoveToken s c i dice)"
proof -
  have k: "k < length (tokens s c)"
    using assms(1,2) by (simp add: wf_state_length)
  have mv: "movable s c (tokens s c ! k) dice"
    using assms(3,4,5) by (simp add: movable_def)
  obtain s' where s': "moveToken s c k dice = Inr s'"
    using moveToken_eq [OF k mv] by simp
  have "tokens s' c ! k = landing c i dice"
    using moveToken_own [OF k mv s'] k assms(3) by simp
  then have dest: "tokens s' c ! k =
     (let dist = (HOME_ENTRY_INDICES c - i + 52) mod 52
      in if dice \<le> dist then (i + dice) mod 52 else 100 + (dice - dist - 1))"
    using landing_track [OF assms(4,5,6)] by simp
  have own: "\<forall>s2. tokens s2 c = tokens s c \<longrightarrow> canMoveToken s2 c i dice = canMoveToken s c i dice"
    using canMoveToken_own_only by blast
  have legal: "canMoveToken s c i dice =
     (let dist = (HOME_ENTRY_INDICES c - i + 52) mod 52
      in if dice \<le> dist then \<not> isOccupiedByPlayer s c ((i + dice) mod 52)
         else dice - dist - 1 \<le> 5 \<and> \<not> isOccupiedByPlayer s c (100 + (dice - dist - 1)))"
    using assms(4,5,6) by (rule canMoveToken_track)
  show ?thesis
    unfolding Let_def
  proof (intro conjI impI)
    assume "dice \<le> (HOME_ENTRY_INDICES c - i + 52) mod 52"
    then show "\<exists>s'. moveToken s c k dice = Inr s' \<and> tokens s' c ! k = (i + dice) mod 52"
      and "canMoveToken s c i dice = (\<not> isOccupiedByPlayer s c ((i + dice) mod 52))"
      using s' dest legal by (simp_all add: Let_def)
  next
    assume "(HOME_ENTRY_INDICES c - i + 52) mod 52 < dice"
    then show "\<exists>s'. moveToken s c k dice = Inr s' \<and>
          tokens s' c ! k = 100 + (dice - (HOME_ENTRY_INDICES c - i + 52) mod 52 - 1)"
      and "canMoveToken s c i dice =
        (dice - (HOME_ENTRY_INDICES c - i + 52) mod 52 - 1 \<le> 5 \<and>
         \<not> isOccupiedByPlayer s c (100 + (dice - (HOME_ENTRY_INDICES c - i + 52) mod 52 - 1)))"
      using s' dest legal by (simp_all add: Let_def)
  next
    show "\<forall>s2. tokens s2 c = tokens s c \<longrightarrow> canMoveToken s2 c i dice = canMoveToken s c i dice"
      by (rule own)
  qed
qed

theorem track_move_rule_witness:
  "wf_state captureState \<and> tokens captureState Red ! 0 = 2 \<and>
   (3::int) \<le> (HOME_ENTRY_INDICES Red - 2 + 52) mod 52 \<and>
   \<not> isOccupiedByPlayer captureState Red 5 \<and>
   canMoveToken captureState Red 2 3 \<and>
   (\<exists>s'. moveToken captureState Red 0 3 = Inr s' \<and> tokens s' Red ! 0 = 5)"
proof -
  have p: "tokens captureState Red ! 0 = 2"
    by (simp add: captureState_def)
  have free: "\<not> isOccupiedByPlayer captureState Red 5"
    by (simp add: captureState_def eval_defs)
  have "let d = (HOME_ENTRY_INDICES Red - 2 + 52) mod 52 in
     (3 \<le> d \<longrightarrow>
        (\<exists>s'. moveToken captureState Red 0 3 = Inr s' \<and> tokens s' Red ! 0 = (2 + 3) mod 52) \<and>
        (canMoveToken captureState Red 2 3 =
           (\<not> isOccupiedByPlayer captureState Red ((2 + 3) mod 52)))) \<and>
     (3 > d \<longrightarrow>
        (\<exists>s'. moveToken captureState Red 0 3 = Inr s' \<and> tokens s' Red ! 0 = 100 + (3 - d - 1)) \<and>
        (canMoveToken captureState Red 2 3 =
           (3 - d - 1 \<le> 5 \<and> \<not> isOccupiedByPlayer captureState Red (100 + (3 - d - 1))))) \<and>
     (\<forall>s2. tokens s2 Red = tokens captureState Red \<longrightarrow>
        canMoveToken s2 Red 2 3 = canMoveToken captureState Red 2 3)"
    by (rule track_move_rule [OF wf_captureState TOKEN_COUNT_pos p]) simp_all
  then show ?thesis
    using wf_captureState p free by (simp add: Let_def)
qed

subsection \<open>C5\<close>

text \<open>
  Claim C5: after a legal move applied by \<^verbatim>\<open>moveToken\<close>, and after a roll for which no token
  can move (the pass), a dice value of 6 leaves the current player index unchanged and
  clears the pending dice, with no move in flight, so the same colour rolls again (the
  button is disabled only if that colour has just won); every other dice value advances
  the current player index by one modulo 4.
\<close>

theorem turn_rule:
  "(i < length (tokens s c) \<and> canMoveToken s c (tokens s c ! i) d \<longrightarrow>
      (\<exists>s'. moveToken s c i d = Inr s' \<and>
         (if d = 6
          then currentPlayerIndex s' = currentPlayerIndex s \<and> diceRoll s' = None \<and>
               \<not> isRolling s' \<and> (rollBtnDisabled s' \<longrightarrow> winner s' = Some c)
          else currentPlayerIndex s' = (currentPlayerIndex s + 1) mod 4))) \<and>
   (\<not> isRolling s \<and> diceRoll s = None \<and> currentPlayer s = Some c \<and>
    \<not> canAnyTokenMove s c d \<longrightarrow>
      (\<exists>s'. onRollDice s d = Inr s' \<and>
         (if d = 6
          then currentPlayerIndex s' = currentPlayerIndex s \<and> diceRoll s' = None \<and>
               \<not> isRolling s' \<and> (rollBtnDisabled s' \<longrightarrow> winner s' = Some c)
          else currentPlayerIndex s' = (currentPlayerIndex s + 1) mod 4)))"
proof (intro conjI impI)
  assume a: "i < length (tokens s c) \<and> canMoveToken s c (tokens s c ! i) d"
  let ?k = "fst (animateTokenMovement (s\<lparr>isRolling := True\<rparr>) c i
                  (movePath c (tokens s c ! i) d))"
  have eq: "moveToken s c i d = Inr (finalizeMove ?k c d)"
    using a by (simp add: moveToken_eq canMoveToken_movable)
  have cpi: "currentPlayerIndex ?k = currentPlayerIndex s"
    by (simp add: animate_other)
  show "\<exists>s'. moveToken s c i d = Inr s' \<and>
         (if d = 6
          then currentPlayerIndex s' = currentPlayerIndex s \<and> diceRoll s' = None \<and>
               \<not> isRolling s' \<and> (rollBtnDisabled s' \<longrightarrow> winner s' = Some c)
          else currentPlayerIndex s' = (currentPlayerIndex s + 1) mod 4)"
    unfolding eq using finalizeMove_turn [OF cpi] by blast
next
  assume a: "\<not> isRolling s \<and> diceRoll s = None \<and> currentPlayer s = Some c \<and>
    \<not> canAnyTokenMove s c d"
  let ?s1 = "s\<lparr>diceRoll := Some d, rollCount := rollCount s + 1\<rparr>"
  let ?s2 = "?s1\<lparr>rollBtnDisabled := True\<rparr>"
  have "\<not> canAnyTokenMove ?s1 c d"
    using a canAnyTokenMove_tokens [of ?s1 s c d] by simp
  moreover have "currentPlayer ?s1 = currentPlayer s"
    by (simp add: currentPlayer_def)
  then have "currentPlayer ?s1 = Some c"
    using a by simp
  ultimately have eq: "onRollDice s d = Inr (finalizeMove ?s2 c d)"
    using a by (simp add: onRollDice_def Let_def)
  have cpi2: "currentPlayerIndex ?s2 = currentPlayerIndex s"
    by simp
  show "\<exists>s'. onRollDice s d = Inr s' \<and>
         (if d = 6
          then currentPlayerIndex s' = currentPlayerIndex s \<and> diceRoll s' = None \<and>
               \<not> isRolling s' \<and> (rollBtnDisabled s' \<longrightarrow> winner s' = Some c)
          else currentPlayerIndex s' = (currentPlayerIndex s + 1) mod 4)"
    unfolding eq using finalizeMove_turn [OF cpi2] by blast
qed

theorem turn_rule_witness:
  "canMoveToken redState Red (tokens redState Red ! 0) 6 \<and>
   (\<exists>s'. moveToken redState Red 0 6 = Inr s' \<and>
         currentPlayerIndex s' = currentPlayerIndex redState \<and> diceRoll s' = None \<and>
         \<not> isRolling s') \<and>
   \<not> canAnyTokenMove initialState Red 3 \<and> currentPlayer initialState = Some Red \<and>
   (\<exists>s'. onRollDice initialState 3 = Inr s' \<and>
         currentPlayerIndex s' = (currentPlayerIndex initialState + 1) mod 4)"
proof -
  have l: "0 < length (tokens redState Red) \<and>
      canMoveToken redState Red (tokens redState Red ! 0) 6"
    by (simp add: redState_def eval_defs)
  have p: "\<not> isRolling initialState \<and> diceRoll initialState = None \<and>
      currentPlayer initialState = Some Red \<and> \<not> canAnyTokenMove initialState Red 3"
    by (simp add: initialState_def eval_defs)
  have m: "\<exists>s'. moveToken redState Red 0 6 = Inr s' \<and>
         currentPlayerIndex s' = currentPlayerIndex redState \<and> diceRoll s' = None \<and>
         \<not> isRolling s'"
    using turn_rule [of 0 redState Red 6] l by auto
  have r: "\<exists>s'. onRollDice initialState 3 = Inr s' \<and>
         currentPlayerIndex s' = (currentPlayerIndex initialState + 1) mod 4"
    using turn_rule [of 0 initialState Red 3] p by auto
  show ?thesis using l p m r by simp
qed

subsection \<open>C6\<close>

text \<open>
  Claim C6 says that no reachable state has tokens of two colours on one non-safe index of
  the shared track. Since no move captures, the game of C2, continued by blue's move of 1,
  reaches a state with a red and a blue token on the non-safe index 14.
\<close>

theorem two_colours_share_square:
  "reachable sharedSquare \<and> Red \<noteq> Blue \<and> (0::int) \<le> 14 \<and> (14::int) < 52 \<and>
   \<not> isSafeSpot 14 \<and>
   isOccupiedByPlayer sharedSquare Red 14 \<and> isOccupiedByPlayer sharedSquare Blue 14"
proof -
  have "reachable sharedSquare"
    using reachable_beforeCapture click_beforeCapture by (rule reachable.click)
  then show ?thesis
    by (simp add: isSafeSpot_iff) (simp add: sharedSquare_def eval_defs)
qed

subsection \<open>C7\<close>

text \<open>
  Claim C7: in every state with the winner set that a run of clicks reaches from a state
  without a winner, a click on the roll button and a click on any token are rejected: the
  state does not change, so no token moves, no roll becomes pending, and the winner stays
  what it is under every further run of clicks. A roll is a click on the roll button,
  which \<^verbatim>\<open>checkWin\<close> disables when it sets the winner; a move is a click on a token.
\<close>

theorem winner_state_absorbing:
  assumes "winner s0 = None" "runEvents s0 evs = Inr s" "winner s \<noteq> None"
  shows "rollBtnClick s roll = Inr s \<and> onTokenClick s c i = Inr s \<and>
     runEvents s evs' = Inr s"
proof -
  have "winnerLocked s0"
    using assms(1) by (simp add: winnerLocked_def)
  then have "winnerLocked s"
    using assms(2) by (rule runEvents_winnerLocked)
  then show ?thesis
    using assms(3) by (simp add: winnerLocked_absorbing)
qed

theorem winner_state_absorbing_witness:
  "winner allHomeState = None \<and> runEvents allHomeState [RollClick 3] = Inr wonState \<and>
   winner wonState \<noteq> None \<and>
   rollBtnClick wonState 6 = Inr wonState \<and> onTokenClick wonState Red 0 = Inr wonState \<and>
   runEvents wonState [RollClick 6, TokenClick Red 0, RollClick 2] = Inr wonState"
proof -
  have h: "winner allHomeState = None" "runEvents allHomeState [RollClick 3] = Inr wonState"
    "winner wonState \<noteq> None"
    by (simp_all add: allHomeState_def wonState_def eval_defs)
  show ?thesis
    using winner_state_absorbing [OF h, of 6 Red 0 "[RollClick 6, TokenClick Red 0, RollClick 2]"] h
    by blast
qed

subsection \<open>C8\<close>

text \<open>
  Claim C8: from home index \<open>j\<close> a move is legal only when \<open>j + dice \<le> 5\<close>; and when
  every home index is at most 5 before, it is at most 5 after every legal move applied by
  \<^verbatim>\<open>moveToken\<close> and after every click handled by \<^verbatim>\<open>onTokenClick\<close>.
\<close>

theorem home_lane_bound:
  assumes "wf_state s" "i < TOKEN_COUNT" "homeLaneOK s"
  shows "(\<forall>j. 0 \<le> j \<and> canMoveToken s c (100 + j) d \<longrightarrow> j + d \<le> 5) \<and>
     (canMoveToken s c (tokens s c ! i) d \<longrightarrow>
        (\<exists>s'. moveToken s c i d = Inr s' \<and> homeLaneOK s')) \<and>
     (\<forall>s'. onTokenClick s c i = Inr s' \<longrightarrow> homeLaneOK s')"
proof -
  have i: "i < length (tokens s c)"
    using assms(1,2) by (simp add: wf_state_length)
  have 1: "j + d \<le> 5" if "0 \<le> j" "canMoveToken s c (100 + j) d" for j
    using that by (auto simp: canMoveToken_def Let_def split: if_splits)
  have 2: "\<exists>s'. moveToken s c i d = Inr s' \<and> homeLaneOK s'"
    if "canMoveToken s c (tokens s c ! i) d"
    using canMoveToken_moveToken [OF i that] moveToken_homeLaneOK [OF assms that] by blast
  have 3: "homeLaneOK s'" if "onTokenClick s c i = Inr s'" for s'
    using that assms(3) i moveToken_homeLaneOK [OF assms]
    by (auto simp: onTokenClick_def split: if_splits option.splits)
  show ?thesis using 1 2 3 by blast
qed

theorem home_lane_bound_witness:
  "wf_state homeState \<and> homeLaneOK homeState \<and>
   canMoveToken homeState Red (100 + 3) 2 \<and> (3::int) + 2 \<le> 5 \<and>
   canMoveToken homeState Red (tokens homeState Red ! 0) 2 \<and>
   (\<exists>s'. moveToken homeState Red 0 2 = Inr s' \<and> homeLaneOK s') \<and>
   onTokenClick homeState Red 0 = Inr homeState \<and> homeLaneOK homeState"
proof -
  have l1: "canMoveToken homeState Red (100 + 3) 2"
    by (simp add: homeState_def eval_defs)
  have l2: "canMoveToken homeState Red (tokens homeState Red ! 0) 2"
    by (simp add: homeState_def eval_defs)
  have click: "onTokenClick homeState Red 0 = Inr homeState"
    by (simp add: homeState_def eval_defs)
  show ?thesis
    using home_lane_bound [OF wf_homeState TOKEN_COUNT_pos homeLaneOK_homeState, of Red 2]
      wf_homeState homeLaneOK_homeState l1 l2 click
    by simp
qed

subsection \<open>C9\<close>

text \<open>
  Claim C9: for a red token on track index 47 and a 6, with no red token on home index 2,
  the move is legal, the token lands on home index 2 (position 102), and the path is
  48, 49, 50 and then home indices 0, 1, 2.
\<close>

theorem red_enters_home:
  assumes "wf_state s" "i < TOKEN_COUNT" "tokens s Red ! i = 47"
    and "\<not> isOccupiedByPlayer s Red 102"
  shows "canMoveToken s Red 47 6 \<and>
     (\<exists>s'. moveToken s Red i 6 = Inr s' \<and> tokens s' Red ! i = 102) \<and>
     movePath Red 47 6 = [48, 49, 50, 100, 101, 102]"
proof -
  have i: "i < length (tokens s Red)"
    using assms(1,2) by (simp add: wf_state_length)
  have legal: "canMoveToken s Red 47 6"
    using assms(4) by (simp add: canMoveToken_def jsRem_def)
  have path: "movePath Red 47 6 = [48, 49, 50, 100, 101, 102]"
    by (simp add: movePath_def jsRem_def upto_rec1)
  have mv: "movable s Red (tokens s Red ! i) 6"
    using assms(3) by (simp add: movable_def)
  obtain s' where s': "moveToken s Red i 6 = Inr s'"
    using moveToken_eq [OF i mv] by simp
  have "tokens s' Red ! i = landing Red 47 6"
    using moveToken_own [OF i mv s'] i assms(3) by simp
  also have "\<dots> = 102"
    by (simp add: landing_def path lastStep_def)
  finally show ?thesis using legal path s' by simp
qed

theorem red_enters_home_witness:
  "wf_state redState \<and> tokens redState Red ! 0 = 47 \<and> \<not> isOccupiedByPlayer redState Red 102 \<and>
   canMoveToken redState Red 47 6 \<and>
   (\<exists>s'. moveToken redState Red 0 6 = Inr s' \<and> tokens s' Red ! 0 = 102) \<and>
   movePath Red 47 6 = [48, 49, 50, 100, 101, 102]"
proof -
  have p: "tokens redState Red ! 0 = 47"
    by (simp add: redState_def)
  have free: "\<not> isOccupiedByPlayer redState Red 102"
    by (simp add: redState_def eval_defs)
  show ?thesis
    using red_enters_home [OF wf_redState TOKEN_COUNT_pos p free] wf_redState p free
    by simp
qed

subsection \<open>C10\<close>

text \<open>
  Claim C10: after a legal move, a token whose position has changed is the moved token or
  an opponent token that stood on the square the move lands on (and is then at the base);
  every other token, the mover's three other tokens among them, keeps its position.
\<close>

theorem move_frame:
  assumes "wf_state s" "i < TOKEN_COUNT"
    and "canMoveToken s c (tokens s c ! i) d"
  shows "\<exists>s'. moveToken s c i d = Inr s' \<and>
     (\<forall>c' j. j < TOKEN_COUNT \<and> tokens s' c' ! j \<noteq> tokens s c' ! j \<longrightarrow>
        (c' = c \<and> j = i) \<or>
        (c' \<noteq> c \<and> tokens s c' ! j = tokens s' c ! i \<and> tokens s' c' ! j = - 1)) \<and>
     (\<forall>j. j < TOKEN_COUNT \<and> j \<noteq> i \<longrightarrow> tokens s' c ! j = tokens s c ! j)"
proof -
  let ?p = "tokens s c ! i"
  have len: "length (tokens s c') = TOKEN_COUNT" for c'
    using assms(1) by (simp add: wf_state_length)
  have i: "i < length (tokens s c)" using assms(2) len by simp
  have mv: "movable s c ?p d" using assms(3) by (rule canMoveToken_movable)
  obtain s' where s': "moveToken s c i d = Inr s'"
    using canMoveToken_moveToken [OF i assms(3)] by blast
  have own: "tokens s' c = (tokens s c)[i := landing c ?p d]"
    using moveToken_own [OF i mv s'] .
  have opp: "tokens s' c' ! j = tokens s c' ! j \<or>
      (tokens s c' ! j = landing c ?p d \<and> tokens s' c' ! j = - 1)"
    if "c' \<noteq> c" "j < TOKEN_COUNT" for c' j
    using moveToken_opponent [OF s' that(1)] by simp
  have 1: "(c' = c \<and> j = i) \<or>
        (c' \<noteq> c \<and> tokens s c' ! j = tokens s' c ! i \<and> tokens s' c' ! j = - 1)"
    if "j < TOKEN_COUNT" "tokens s' c' ! j \<noteq> tokens s c' ! j" for c' j
  proof (cases "c' = c")
    case True
    then show ?thesis using that own i by (auto simp: nth_list_update split: if_splits)
  next
    case False
    then show ?thesis using opp [OF False that(1)] that(2) own i by simp
  qed
  have 2: "tokens s' c ! j = tokens s c ! j" if "j \<noteq> i" for j
    using own that by simp
  show ?thesis
    using s' 1 2 by blast
qed

theorem move_frame_witness:
  "wf_state captureState \<and> canMoveToken captureState Red (tokens captureState Red ! 0) 3 \<and>
   (\<exists>s'. moveToken captureState Red 0 3 = Inr s' \<and>
         tokens s' Red ! 1 = tokens captureState Red ! 1 \<and>
         tokens s' Red ! 2 = tokens captureState Red ! 2 \<and>
         tokens s' Red ! 3 = tokens captureState Red ! 3)"
  using move_frame [OF wf_captureState TOKEN_COUNT_pos legal_captureState]
    wf_captureState legal_captureState
  by (auto simp: TOKEN_COUNT_def)

end
